theory Spec2Isabelle
  imports Main "HOL-Library.AList"
begin

section \<open>Values shared by the services and the workflow page\<close>

text \<open>
  The TypeScript sources type every payload as \<open>any\<close>; the values that travel are the
  ones \<open>JSON.parse\<close> produces. An object is an association list, so that the order of
  its properties is kept; \<open>undefined\<close> is the \<open>None\<close> of an option around such a value.
  Numbers are kept as mantissa and decimal exponent (0.7 is \<open>JNum 7 (-1)\<close>): no claim
  computes with them.
\<close>

datatype json =
    JNull
  | JBool bool
  | JNum int int
  | JStr string
  | JArr "json list"
  | JObj "(string \<times> json) list"

text \<open>
  What awaiting a promise gives: it resolved with a value, it rejected with a reason
  (a string, or the message of the \<open>Error\<close> that was thrown), or it never settles.
\<close>

datatype 'a promise = Resolved 'a | Rejected string | Unsettled

section \<open>The storage abstraction layer (frontend/src/services: agentsService, simulationsService)\<close>

text \<open>
  \<open>agentsStorage\<close> and \<open>simulationsStorage\<close> are module-level arrays of objects. A
  stored object is an association list of its properties; \<open>a.id === id\<close> holds when the
  object has an \<open>id\<close> property that is the string \<open>id\<close>.
\<close>

type_synonym entity = "(string \<times> json) list"

definition has_id :: "string \<Rightarrow> entity \<Rightarrow> bool" where
  "has_id i a = (map_of a ''id'' = Some (JStr i))"

text \<open>\<open>Array.prototype.findIndex\<close>: the first index whose element passes, or \<open>-1\<close>.\<close>

fun findIndex :: "('a \<Rightarrow> bool) \<Rightarrow> 'a list \<Rightarrow> int" where
  "findIndex p [] = -1"
| "findIndex p (x # xs) =
     (if p x then 0 else (let i = findIndex p xs in if i = -1 then -1 else i + 1))"

text \<open>
  \<open>get\<close> (both services): \<open>Promise.resolve(storage.find(a => a.id === id))\<close>.
  \<open>Array.prototype.find\<close> gives the first element that passes, or \<open>undefined\<close>.
\<close>

definition agentsService_get :: "string \<Rightarrow> entity list \<Rightarrow> entity option promise" where
  "agentsService_get i agentsStorage = Resolved (find (has_id i) agentsStorage)"

definition simulationsService_get :: "string \<Rightarrow> entity list \<Rightarrow> entity option promise" where
  "simulationsService_get i simulationsStorage = Resolved (find (has_id i) simulationsStorage)"

text \<open>
  \<open>agentsService.delete\<close>: looks the index up, throws \<open>Error('Agent not found')\<close> when it
  is \<open>-1\<close>, and otherwise assigns \<open>agentsStorage[index].status = 'ARCHIVED'\<close>. Assigning a
  property replaces its value in place when the object has it, and appends it otherwise,
  which is \<open>AList.update\<close>. The function returns the storage after the call together
  with the settled promise.
\<close>

definition agentsService_delete :: "string \<Rightarrow> entity list \<Rightarrow> entity list \<times> unit promise" where
  "agentsService_delete i agentsStorage =
     (let index = findIndex (has_id i) agentsStorage in
      if index = -1 then (agentsStorage, Rejected ''Agent not found'')
      else (agentsStorage[nat index :=
              AList.update ''status'' (JStr ''ARCHIVED'') (agentsStorage ! nat index)],
            Resolved ()))"

section \<open>The workflow page (WorkflowRunner)\<close>

subsection \<open>State of the page\<close>

datatype WorkflowStep = Consulting | Simulation | Debate | Aggregator

datatype StepStatus = Pending | Running | Completed | Error

text \<open>\<open>StepState\<close>: the optional fields \<open>result\<close> and \<open>error\<close> are \<open>None\<close> when unset.\<close>

record StepState =
  status :: StepStatus
  "output" :: string
  result :: "json option"
  error :: "string option"

type_synonym Steps = "WorkflowStep \<Rightarrow> StepState"

text \<open>The value \<open>useState\<close> gives \<open>steps\<close> when the page is mounted.\<close>

definition initialSteps :: Steps where
  "initialSteps = (\<lambda>_. \<lparr>status = Pending, output = [], result = None, error = None\<rparr>)"

fun step_name :: "WorkflowStep \<Rightarrow> string" where
  "step_name Consulting = ''consulting''"
| "step_name Simulation = ''simulation''"
| "step_name Debate = ''debate''"
| "step_name Aggregator = ''aggregator''"


definition workflowSteps :: "WorkflowStep list" where
  "workflowSteps = [Consulting, Simulation, Debate, Aggregator]"

text \<open>The form fields \<open>runWorkflow\<close> reads; they do not change while a workflow runs.\<close>

record Form =
  politicianName :: string
  policyGoal :: string
  city :: string
  policyDocument :: string
  simulationPerspective :: "string list"

text \<open>
  The state a run reads and writes. \<open>alerts\<close> are the calls of \<open>alert\<close>, and \<open>sent\<close> the
  messages handed to \<open>ws.send\<close> with the client id of their socket, both in call
  order. \<open>history\<close> lists the successive values of \<open>steps\<close>: React applies the
  functional updates of \<open>setSteps\<close> in call order, and each one yields the next value.
  The page's \<open>simulationMetrics\<close>, \<open>debateMessages\<close> and \<open>simulationViewMode\<close> are left
  out: they are written only by the parsing of the streamed text inside \<open>try\<close>/\<open>catch\<close>
  blocks of the token handler and are read by no code modelled here.
\<close>

record Page =
  steps :: Steps
  currentStep :: "WorkflowStep option"
  isRunning :: bool
  finalReport :: string
  clientId :: string
  alerts :: "string list"
  sent :: "(string \<times> json) list"
  history :: "Steps list"

definition setSteps :: "(Steps \<Rightarrow> Steps) \<Rightarrow> Page \<Rightarrow> Page" where
  "setSteps f s = s\<lparr>steps := f (steps s), history := history s @ [f (steps s)]\<rparr>"

definition alert :: "string \<Rightarrow> Page \<Rightarrow> Page" where
  "alert m s = s\<lparr>alerts := alerts s @ [m]\<rparr>"

definition updateStepOutput :: "WorkflowStep \<Rightarrow> string \<Rightarrow> Page \<Rightarrow> Page" where
  "updateStepOutput step token =
     setSteps (\<lambda>prev. prev(step := (prev step)\<lparr>output := output (prev step) @ token\<rparr>))"

definition updateStepStatus ::
  "WorkflowStep \<Rightarrow> StepStatus \<Rightarrow> json option \<Rightarrow> string option \<Rightarrow> Page \<Rightarrow> Page" where
  "updateStepStatus step st res err =
     setSteps (\<lambda>prev. prev(step := (prev step)\<lparr>status := st, result := res, error := err\<rparr>))"

subsection \<open>Streaming one agent execution over a WebSocket\<close>

record AgentExecutionRequest =
  agent_type :: string
  description :: string
  custom_input :: "(string \<times> json) list"
  config :: "(string \<times> json) list"
  stream :: bool

text \<open>The object \<open>{type: 'execute', ...request}\<close> that \<open>onopen\<close> stringifies and sends.\<close>

definition execute_message :: "AgentExecutionRequest \<Rightarrow> json" where
  "execute_message request =
     JObj [(''type'', JStr ''execute''),
           (''agent_type'', JStr (agent_type request)),
           (''description'', JStr (description request)),
           (''custom_input'', JObj (custom_input request)),
           (''config'', JObj (config request)),
           (''stream'', JBool (stream request))]"

text \<open>
  What the socket delivers to its handlers. A message is the parsed \<open>event.data\<close>, by its
  \<open>type\<close>: \<open>start\<close> (with the agent id), \<open>token\<close>, \<open>complete\<close> (with the result),
  \<open>error\<close> (with the error text), or any other type, which the \<open>switch\<close> ignores.
\<close>

datatype ws_message =
    MsgStart string
  | MsgToken string
  | MsgComplete json
  | MsgError string
  | MsgOther

datatype ws_event = OnOpen | OnMessage ws_message | OnError

text \<open>
  The closure of one \<open>executeStep\<close> call: the page, the local \<open>fullOutput\<close>, and the
  promise the call returned. \<open>settle\<close> is \<open>resolve\<close>/\<open>reject\<close>: only the first call counts.
\<close>

record Execution =
  page :: Page
  fullOutput :: string
  settled :: "json promise"

definition settle :: "json promise \<Rightarrow> Execution \<Rightarrow> Execution" where
  "settle p c = (if settled c = Unsettled then c\<lparr>settled := p\<rparr> else c)"

text \<open>
  \<open>streamAgentExecution\<close> (services/agents.ts) with the events of its socket, in the
  order the socket raises them. A \<open>complete\<close> or \<open>error\<close> message calls its callback
  and closes the socket, and a transport error (\<open>onerror\<close>) is raised by a connection
  that is being closed: no handler runs after any of the three.
\<close>

fun streamAgentExecution ::
  "string \<Rightarrow> AgentExecutionRequest \<Rightarrow>
   (string \<Rightarrow> Execution \<Rightarrow> Execution) \<Rightarrow>
   (json \<Rightarrow> Execution \<Rightarrow> Execution) \<Rightarrow>
   (string \<Rightarrow> Execution \<Rightarrow> Execution) \<Rightarrow>
   ws_event list \<Rightarrow> Execution \<Rightarrow> Execution" where
  "streamAgentExecution cid request onToken onComplete onError [] c = c"
| "streamAgentExecution cid request onToken onComplete onError (OnOpen # es) c =
     streamAgentExecution cid request onToken onComplete onError es
       (c\<lparr>page := (page c)\<lparr>sent := sent (page c) @ [(cid, execute_message request)]\<rparr>\<rparr>)"
| "streamAgentExecution cid request onToken onComplete onError (OnMessage (MsgStart a) # es) c =
     streamAgentExecution cid request onToken onComplete onError es c"
| "streamAgentExecution cid request onToken onComplete onError (OnMessage (MsgToken t) # es) c =
     streamAgentExecution cid request onToken onComplete onError es (onToken t c)"
| "streamAgentExecution cid request onToken onComplete onError (OnMessage (MsgComplete r) # es) c =
     onComplete r c"
| "streamAgentExecution cid request onToken onComplete onError (OnMessage (MsgError e) # es) c =
     onError e c"
| "streamAgentExecution cid request onToken onComplete onError (OnMessage MsgOther # es) c =
     streamAgentExecution cid request onToken onComplete onError es c"
| "streamAgentExecution cid request onToken onComplete onError (OnError # es) c =
     onError ''WebSocket error'' c"

subsection \<open>executeStep\<close>

text \<open>The three callbacks \<open>executeStep\<close> hands to \<open>streamAgentExecution\<close>.\<close>

definition onToken :: "WorkflowStep \<Rightarrow> string \<Rightarrow> Execution \<Rightarrow> Execution" where
  "onToken step token c =
     (let c1 = c\<lparr>fullOutput := fullOutput c @ token\<rparr>;
          c2 = c1\<lparr>page := updateStepOutput step token (page c1)\<rparr>
      in if step = Aggregator
         then c2\<lparr>page := (page c2)\<lparr>finalReport := fullOutput c2\<rparr>\<rparr>
         else c2)"

definition onComplete :: "WorkflowStep \<Rightarrow> json \<Rightarrow> Execution \<Rightarrow> Execution" where
  "onComplete step res c =
     settle (Resolved res) (c\<lparr>page := updateStepStatus step Completed (Some res) None (page c)\<rparr>)"

definition onError :: "WorkflowStep \<Rightarrow> string \<Rightarrow> Execution \<Rightarrow> Execution" where
  "onError step err c =
     settle (Rejected err) (c\<lparr>page := updateStepStatus step Error None (Some err) (page c)\<rparr>)"

text \<open>
  \<open>execution\<close> is the closure of \<open>executeStep\<close> once its socket has delivered \<open>events\<close>;
  \<open>executeStep\<close> gives the page then and what awaiting the returned promise gives.
\<close>

definition execution ::
  "WorkflowStep \<Rightarrow> AgentExecutionRequest \<Rightarrow> ws_event list \<Rightarrow> Page \<Rightarrow> Execution" where
  "execution step request events s =
     streamAgentExecution (clientId s @ ''-'' @ step_name step) request
       (onToken step) (onComplete step) (onError step) events
       \<lparr>page = updateStepStatus step Running None None (s\<lparr>currentStep := Some step\<rparr>),
        fullOutput = [], settled = Unsettled\<rparr>"

definition executeStep ::
  "WorkflowStep \<Rightarrow> AgentExecutionRequest \<Rightarrow> ws_event list \<Rightarrow> Page \<Rightarrow> Page \<times> json promise" where
  "executeStep step request events s =
     (page (execution step request events s), settled (execution step request events s))"

subsection \<open>runWorkflow\<close>

text \<open>The request objects \<open>runWorkflow\<close> builds, one per step.\<close>

definition stepConfig :: "(string \<times> json) list" where
  "stepConfig = [(''temperature'', JNum 7 (-1)), (''streaming'', JBool True)]"

definition consultingRequest :: "Form \<Rightarrow> AgentExecutionRequest" where
  "consultingRequest f =
     \<lparr>agent_type = ''CONSULTING'',
      description = ''Determine goals and create strategic framework for '' @ politicianName f @
                    [CHR 0x27] @ ''s '' @ policyGoal f @ '' initiative in '' @ city f,
      custom_input =
        [(''politician_info'', JObj [(''name'', JStr (politicianName f)), (''city'', JStr (city f))]),
         (''initial_request'', JStr (policyGoal f))],
      config = stepConfig,
      stream = True\<rparr>"

definition simulationRequest :: "Form \<Rightarrow> string \<Rightarrow> AgentExecutionRequest" where
  "simulationRequest f perspective =
     \<lparr>agent_type = ''SIMULATION'',
      description = ''Simulate '' @ perspective @ '' impact for '' @ policyGoal f @ '' in '' @ city f,
      custom_input =
        [(''perspective'', JStr perspective),
         (''city'', JStr (city f)),
         (''policy_document'', JStr (policyDocument f))],
      config = stepConfig,
      stream = True\<rparr>"

definition debateRequest :: "Form \<Rightarrow> AgentExecutionRequest" where
  "debateRequest f =
     \<lparr>agent_type = ''DEBATE'',
      description = ''Analyze pros and cons of '' @ policyGoal f @ '' initiative'',
      custom_input =
        [(''rounds'', JNum 3 0),
         (''focus_areas'', JArr (map JStr (simulationPerspective f)))],
      config = stepConfig,
      stream = True\<rparr>"

definition aggregatorRequest :: "Form \<Rightarrow> AgentExecutionRequest" where
  "aggregatorRequest f =
     \<lparr>agent_type = ''AGGREGATOR'',
      description = ''Compile comprehensive report for '' @ policyGoal f @ '' initiative'',
      custom_input =
        [(''format'', JStr ''PDF''),
         (''sections'', JArr [JStr ''executive_summary'', JStr ''simulations'',
                              JStr ''debate'', JStr ''recommendations''])],
      config = stepConfig,
      stream = True\<rparr>"

text \<open>
  The backend's side of a run: the events the socket of the \<open>n\<close>-th execution of a step
  delivers (only the simulation step is executed more than once, once per perspective).
\<close>

type_synonym backend = "WorkflowStep \<Rightarrow> nat \<Rightarrow> ws_event list"

text \<open>
  \<open>await\<close>: the code after an \<open>await\<close> runs with the value when the promise resolves;
  a rejection is thrown to the enclosing \<open>catch\<close>; a promise that never settles
  suspends the function for good.
\<close>

definition await ::
  "Page \<times> 'a promise \<Rightarrow> ('a \<Rightarrow> Page \<Rightarrow> Page \<times> 'b promise) \<Rightarrow> Page \<times> 'b promise" where
  "await m k =
     (case m of
        (s, Resolved r) \<Rightarrow> k r s
      | (s, Rejected e) \<Rightarrow> (s, Rejected e)
      | (s, Unsettled) \<Rightarrow> (s, Unsettled))"

text \<open>The \<open>for\<close> loop over the selected perspectives; \<open>n\<close> counts the executions.\<close>

fun simulationLoop :: "Form \<Rightarrow> backend \<Rightarrow> nat \<Rightarrow> string list \<Rightarrow> Page \<Rightarrow> Page \<times> unit promise" where
  "simulationLoop f backend n [] s = (s, Resolved ())"
| "simulationLoop f backend n (perspective # rest) s =
     await (executeStep Simulation (simulationRequest f perspective) (backend Simulation n) s)
       (\<lambda>simulationResult. simulationLoop f backend (Suc n) rest)"

text \<open>The body of the \<open>try\<close> block of \<open>runWorkflow\<close>.\<close>

definition workflowBody :: "Form \<Rightarrow> backend \<Rightarrow> Page \<Rightarrow> Page \<times> unit promise" where
  "workflowBody f backend s =
     await (executeStep Consulting (consultingRequest f) (backend Consulting 0) s)
       (\<lambda>consultingResult s1.
     await (simulationLoop f backend 0 (simulationPerspective f) s1)
       (\<lambda>_ s2.
     await (executeStep Debate (debateRequest f) (backend Debate 0) s2)
       (\<lambda>debateResult s3.
     await (executeStep Aggregator (aggregatorRequest f) (backend Aggregator 0) s3)
       (\<lambda>aggregatorResult s4. (s4\<lparr>currentStep := None\<rparr>, Resolved ())))))"

text \<open>
  \<open>runWorkflow\<close>: the guard on the required fields, then the \<open>try\<close> block with its
  \<open>catch\<close> (an alert) and its \<open>finally\<close> (\<open>setIsRunning(false)\<close>). A string is falsy
  exactly when it is empty. The function itself never rejects.
\<close>

definition runWorkflow :: "Form \<Rightarrow> backend \<Rightarrow> Page \<Rightarrow> Page \<times> unit promise" where
  "runWorkflow f backend s =
     (if politicianName f = [] \<or> policyGoal f = [] \<or> city f = []
      then (alert ''Please fill in all required fields'' s, Resolved ())
      else
        (case workflowBody f backend (s\<lparr>isRunning := True\<rparr>) of
           (s', Resolved _) \<Rightarrow> (s'\<lparr>isRunning := False\<rparr>, Resolved ())
         | (s', Rejected e) \<Rightarrow> ((alert (''Workflow failed: '' @ e) s')\<lparr>isRunning := False\<rparr>, Resolved ())
         | (s', Unsettled) \<Rightarrow> (s', Unsettled)))"

section \<open>Vocabulary of the properties\<close>

subsection \<open>Executions and runs\<close>

text \<open>
  What one execution of a step does to \<open>steps\<close>: \<open>only_step k\<close> relates two values that
  differ at most at step \<open>k\<close>; \<open>exec_trace k s s' p\<close> says that the values \<open>steps\<close> took
  between the pages \<open>s\<close> and \<open>s'\<close> differ from the one of \<open>s\<close> at step \<open>k\<close> only, have
  \<open>k\<close> running with no result and no error, and end, when the promise settled with \<open>p\<close>,
  with the terminal state of \<open>p\<close>. \<open>delivered\<close> lists the tokens a socket hands to
  \<open>onToken\<close> before it closes.
\<close>

definition only_step :: "WorkflowStep \<Rightarrow> Steps \<Rightarrow> Steps \<Rightarrow> bool" where
  "only_step k before snap = (\<forall>j. j \<noteq> k \<longrightarrow> snap j = before j)"

definition running_state :: "StepState \<Rightarrow> bool" where
  "running_state st = (status st = Running \<and> result st = None \<and> error st = None)"

fun delivered :: "ws_event list \<Rightarrow> string list" where
  "delivered [] = []"
| "delivered (OnMessage (MsgToken t) # es) = t # delivered es"
| "delivered (OnMessage (MsgComplete r) # es) = []"
| "delivered (OnMessage (MsgError e) # es) = []"
| "delivered (OnError # es) = []"
| "delivered (e # es) = delivered es"

definition exec_trace :: "WorkflowStep \<Rightarrow> Page \<Rightarrow> Page \<Rightarrow> json promise \<Rightarrow> bool" where
  "exec_trace k s s' p =
     (\<exists>rs. (\<forall>snap \<in> set rs. only_step k (steps s) snap \<and> running_state (snap k)) \<and>
           only_step k (steps s) (steps s') \<and>
           (case p of
              Unsettled \<Rightarrow> history s' = history s @ rs \<and> running_state (steps s' k)
            | Resolved r \<Rightarrow> history s' = history s @ rs @ [steps s'] \<and>
                status (steps s' k) = Completed \<and> result (steps s' k) = Some r \<and> error (steps s' k) = None
            | Rejected e \<Rightarrow> history s' = history s @ rs @ [steps s'] \<and>
                status (steps s' k) = Error \<and> result (steps s' k) = None \<and> error (steps s' k) = Some e))"

text \<open>
  The page as mounted, the values \<open>steps\<close> takes between two pages of one run, and
  triples for code that awaits: \<open>triple P m Q\<close> says that \<open>m\<close>, started on a page with
  \<open>P\<close>, ends on a page with \<open>Q p\<close>, where \<open>p\<close> is what awaiting its promise gives.
\<close>

definition initialPage :: "string \<Rightarrow> Page" where
  "initialPage cid =
     \<lparr>steps = initialSteps, currentStep = None, isRunning = False, finalReport = [],
      clientId = cid, alerts = [], sent = [], history = []\<rparr>"


text \<open>\<open>extends I s s'\<close>: every value \<open>steps\<close> took from \<open>s\<close> to \<open>s'\<close> satisfies \<open>I\<close>.\<close>

definition extends :: "(Steps \<Rightarrow> bool) \<Rightarrow> Page \<Rightarrow> Page \<Rightarrow> bool" where
  "extends I s s' = (\<exists>xs. history s' = history s @ xs \<and> (\<forall>snap \<in> set xs. I snap))"

definition triple ::
  "(Page \<Rightarrow> bool) \<Rightarrow> (Page \<Rightarrow> Page \<times> 'a promise) \<Rightarrow> ('a promise \<Rightarrow> Page \<Rightarrow> bool) \<Rightarrow> bool" where
  "triple P m Q = (\<forall>s. P s \<longrightarrow> Q (snd (m s)) (fst (m s)))"

subsection \<open>Result and error of a step\<close>



subsection \<open>A failing step\<close>






subsection \<open>Order of the steps and their status sequences\<close>



definition status_le :: "StepStatus \<Rightarrow> StepStatus \<Rightarrow> bool" where
  "status_le a b = (a = b \<or> a = Pending \<or> (a = Running \<and> b \<noteq> Pending))"





subsection \<open>Requests\<close>

text \<open>
  The values a JSON value holds, itself included: \<open>contains whole part\<close> says that
  \<open>part\<close> occurs somewhere inside \<open>whole\<close>.
\<close>

fun subvalues :: "json \<Rightarrow> json list" where
  "subvalues (JArr xs) = JArr xs # concat (map subvalues xs)"
| "subvalues (JObj kvs) = JObj kvs # concat (map (\<lambda>kv. subvalues (snd kv)) kvs)"
| "subvalues v = [v]"

definition contains :: "json \<Rightarrow> json \<Rightarrow> bool" where
  "contains whole part = (part \<in> set (subvalues whole))"

text \<open>
  The requests a run can send: one per step, and one per selected perspective for the
  simulation step, each on the socket of its step. They are computed from the form and
  the client id alone.
\<close>

definition requestPlan :: "Form \<Rightarrow> string \<Rightarrow> (string \<times> json) list" where
  "requestPlan f cid =
     (cid @ ''-'' @ step_name Consulting, execute_message (consultingRequest f)) #
     map (\<lambda>perspective. (cid @ ''-'' @ step_name Simulation,
                          execute_message (simulationRequest f perspective)))
         (simulationPerspective f) @
     [(cid @ ''-'' @ step_name Debate, execute_message (debateRequest f)),
      (cid @ ''-'' @ step_name Aggregator, execute_message (aggregatorRequest f))]"

definition sent_inv :: "Form \<Rightarrow> Page \<Rightarrow> Page \<Rightarrow> bool" where
  "sent_inv f s0 s =
     (clientId s = clientId s0 \<and>
      (\<exists>new. sent s = sent s0 @ new \<and> set new \<subseteq> set (requestPlan f (clientId s0))))"

subsection \<open>Concrete runs\<close>

text \<open>Concrete runs: a form with two perspectives and a backend that completes every step,
  and one whose debate step fails.\<close>

definition demoForm :: Form where
  "demoForm = \<lparr>politicianName = ''Mayor Smith'', policyGoal = ''Car curfew'', city = ''Springfield'',
               policyDocument = [], simulationPerspective = [''traffic'', ''housing'']\<rparr>"

definition demoBackend :: backend where
  "demoBackend step n =
     (if step = Simulation
      then (if n = 0 then [OnOpen, OnMessage (MsgToken ''a''), OnMessage (MsgComplete (JStr ''first''))]
            else [OnOpen, OnMessage (MsgToken ''b''), OnMessage (MsgComplete (JStr ''second''))])
      else [OnOpen, OnMessage (MsgStart ''agent''), OnMessage (MsgToken ''x''),
            OnMessage (MsgComplete (JStr ''done''))])"


section \<open>The context aggregator\<close>

text \<open>
  Modelled from the spec: the Context Aggregator, the backend's store of recent task
  outputs behind \<open>/api/orchestrator/context\<close>, is not among the sources (the frontend
  only calls it, through \<open>getContext\<close> and \<open>clearContext\<close>). The spec keeps, per agent
  kind, an ordered list of the most recent \<open>N = 10\<close> entries, oldest first, and
  \<open>record(kind, entry)\<close> appends the entry, evicting the oldest entry of that kind when
  the list is at capacity; \<open>snapshot(kinds)\<close> reads the lists of the requested kinds.
\<close>

definition aggregator_capacity :: nat where
  "aggregator_capacity = 10"

type_synonym 'e aggregator = "string \<Rightarrow> 'e list"

definition aggregator_record :: "string \<Rightarrow> 'e \<Rightarrow> 'e aggregator \<Rightarrow> 'e aggregator" where
  "aggregator_record kind entry agg =
     agg(kind := (if length (agg kind) < aggregator_capacity
                  then agg kind @ [entry]
                  else tl (agg kind) @ [entry]))"

definition aggregator_snapshot :: "string list \<Rightarrow> 'e aggregator \<Rightarrow> (string \<times> 'e list) list" where
  "aggregator_snapshot kinds agg = map (\<lambda>kind. (kind, agg kind)) kinds"

definition aggregator_empty :: "'e aggregator" where
  "aggregator_empty = (\<lambda>kind. [])"

fun aggregator_record_all :: "(string \<times> 'e) list \<Rightarrow> 'e aggregator \<Rightarrow> 'e aggregator" where
  "aggregator_record_all [] agg = agg"
| "aggregator_record_all ((kind, entry) # rest) agg =
     aggregator_record_all rest (aggregator_record kind entry agg)"

text \<open>
  The simulations page keeps, for its output cards, the last output of each agent of its
  own workflow (\<open>agentFullOutputs\<close>): one string per key, which every
  \<open>setAgentFullOutputs(prev => ({...prev, key: output}))\<close> replaces. It is display state
  of that page, not the aggregator.
\<close>

definition initialAgentFullOutputs :: "string \<rightharpoonup> string" where
  "initialAgentFullOutputs =
     [''consulting'' \<mapsto> [], ''simulation'' \<mapsto> [], ''debate'' \<mapsto> [],
      ''aggregator'' \<mapsto> [], ''mapbox'' \<mapsto> []]"

definition setAgentFullOutputs ::
  "string \<Rightarrow> string \<Rightarrow> (string \<rightharpoonup> string) \<Rightarrow> (string \<rightharpoonup> string)" where
  "setAgentFullOutputs key out prev = prev(key \<mapsto> out)"

section \<open>Properties of the storage layer\<close>

lemma findIndex_range: "findIndex p xs = -1 \<or> (0 \<le> findIndex p xs \<and> findIndex p xs < int (length xs))"
  by (induction xs) (auto simp: Let_def)

lemma findIndex_none: "findIndex p xs = -1 \<longleftrightarrow> (\<forall>x \<in> set xs. \<not> p x)"
proof (induction xs)
  case Nil
  show ?case by simp
next
  case (Cons x xs)
  have "findIndex p xs \<noteq> -1 \<Longrightarrow> findIndex p xs + 1 \<noteq> -1"
    using findIndex_range [of p xs] by auto
  with Cons show ?case by (auto simp: Let_def)
qed

lemma findIndex_hit:
  "findIndex p xs \<noteq> -1 \<Longrightarrow> p (xs ! nat (findIndex p xs)) \<and> nat (findIndex p xs) < length xs"
proof (induction xs)
  case Nil
  then show ?case by simp
next
  case (Cons x xs)
  show ?case
  proof (cases "p x")
    case True
    then show ?thesis by simp
  next
    case False
    with Cons.prems have ne: "findIndex p xs \<noteq> -1"
      by (auto simp: Let_def split: if_splits)
    then have nonneg: "0 \<le> findIndex p xs"
      using findIndex_range [of p xs] by auto
    from ne Cons.IH have ih: "p (xs ! nat (findIndex p xs))" "nat (findIndex p xs) < length xs"
      by auto
    from nonneg have "nat (findIndex p xs + 1) = Suc (nat (findIndex p xs))"
      by simp
    with False ne ih show ?thesis
      by (simp add: Let_def)
  qed
qed

lemma findIndex_first:
  "findIndex p xs \<noteq> -1 \<Longrightarrow> j < nat (findIndex p xs) \<Longrightarrow> \<not> p (xs ! j)"
proof (induction xs arbitrary: j)
  case Nil
  then show ?case by simp
next
  case (Cons x xs)
  show ?case
  proof (cases "p x")
    case True
    with Cons.prems show ?thesis by simp
  next
    case False
    with Cons.prems have ne: "findIndex p xs \<noteq> -1"
      by (auto simp: Let_def split: if_splits)
    then have nonneg: "0 \<le> findIndex p xs"
      using findIndex_range [of p xs] by auto
    then have suc: "nat (findIndex p xs + 1) = Suc (nat (findIndex p xs))"
      by simp
    show ?thesis
    proof (cases j)
      case 0
      with False show ?thesis by simp
    next
      case (Suc k)
      with Cons.prems False ne suc have "k < nat (findIndex p xs)"
        by (simp add: Let_def)
      with Cons.IH ne have "\<not> p (xs ! k)" by blast
      with Suc show ?thesis by simp
    qed
  qed
qed

lemma map_of_update_other: "k \<noteq> k' \<Longrightarrow> map_of (AList.update k' v a) k = map_of a k"
  by (simp add: update_conv')

lemma map_of_update_same: "map_of (AList.update k v a) k = Some v"
  by (simp add: update_conv')

text \<open>
  C10. \<open>agentsService.delete\<close> archives and never removes. When some stored agent has the
  id, the call resolves, the array keeps its length, the first agent with that id gets
  \<open>status = 'ARCHIVED'\<close> and keeps every other property, and every other element of the
  array is untouched. When no stored agent has the id, the call rejects with
  \<open>Agent not found\<close> and the array is the one it was.
\<close>

theorem agentsService_delete_archives:
  "((\<exists>a \<in> set st. has_id i a) \<longrightarrow>
     (\<exists>n < length st.
        has_id i (st ! n) \<and> (\<forall>m < n. \<not> has_id i (st ! m)) \<and>
        snd (agentsService_delete i st) = Resolved () \<and>
        length (fst (agentsService_delete i st)) = length st \<and>
        map_of (fst (agentsService_delete i st) ! n) ''status'' = Some (JStr ''ARCHIVED'') \<and>
        (\<forall>k. k \<noteq> ''status'' \<longrightarrow>
             map_of (fst (agentsService_delete i st) ! n) k = map_of (st ! n) k) \<and>
        (\<forall>m < length st. m \<noteq> n \<longrightarrow> fst (agentsService_delete i st) ! m = st ! m))) \<and>
   ((\<forall>a \<in> set st. \<not> has_id i a) \<longrightarrow>
     agentsService_delete i st = (st, Rejected ''Agent not found''))"
proof (intro conjI impI)
  let ?ix = "findIndex (has_id i) st"
  assume "\<exists>a \<in> set st. has_id i a"
  then have ne: "?ix \<noteq> -1"
    by (simp add: findIndex_none)
  from findIndex_hit [OF ne] have hit: "has_id i (st ! nat ?ix)" and lt: "nat ?ix < length st"
    by auto
  have first: "\<forall>m < nat ?ix. \<not> has_id i (st ! m)"
    using findIndex_first [OF ne] by blast
  have del: "agentsService_delete i st =
      (st[nat ?ix := AList.update ''status'' (JStr ''ARCHIVED'') (st ! nat ?ix)], Resolved ())"
    using ne by (simp add: agentsService_delete_def Let_def)
  show "\<exists>n < length st.
      has_id i (st ! n) \<and> (\<forall>m < n. \<not> has_id i (st ! m)) \<and>
      snd (agentsService_delete i st) = Resolved () \<and>
      length (fst (agentsService_delete i st)) = length st \<and>
      map_of (fst (agentsService_delete i st) ! n) ''status'' = Some (JStr ''ARCHIVED'') \<and>
      (\<forall>k. k \<noteq> ''status'' \<longrightarrow>
           map_of (fst (agentsService_delete i st) ! n) k = map_of (st ! n) k) \<and>
      (\<forall>m < length st. m \<noteq> n \<longrightarrow> fst (agentsService_delete i st) ! m = st ! m)"
    using hit lt first
    by (intro exI [of _ "nat ?ix"])
       (simp add: del map_of_update_same map_of_update_other)
next
  assume "\<forall>a \<in> set st. \<not> has_id i a"
  then have "findIndex (has_id i) st = -1"
    by (simp add: findIndex_none)
  then show "agentsService_delete i st = (st, Rejected ''Agent not found'')"
    by (simp add: agentsService_delete_def)
qed

theorem agentsService_delete_archives_witness:
  "agentsService_delete ''agent-1''
     [[(''id'', JStr ''agent-0''), (''status'', JStr ''ACTIVE'')],
      [(''id'', JStr ''agent-1''), (''name'', JStr ''Planner''), (''status'', JStr ''ACTIVE'')]] =
   ([[(''id'', JStr ''agent-0''), (''status'', JStr ''ACTIVE'')],
     [(''id'', JStr ''agent-1''), (''name'', JStr ''Planner''), (''status'', JStr ''ARCHIVED'')]],
    Resolved ()) \<and>
   agentsService_delete ''agent-7''
     [[(''id'', JStr ''agent-0''), (''status'', JStr ''ACTIVE'')]] =
   ([[(''id'', JStr ''agent-0''), (''status'', JStr ''ACTIVE'')]], Rejected ''Agent not found'')"
  using agentsService_delete_archives
          [of "[[(''id'', JStr ''agent-0''), (''status'', JStr ''ACTIVE'')],
                [(''id'', JStr ''agent-1''), (''name'', JStr ''Planner''), (''status'', JStr ''ACTIVE'')]]"
              "''agent-1''"]
        agentsService_delete_archives
          [of "[[(''id'', JStr ''agent-0''), (''status'', JStr ''ACTIVE'')]]" "''agent-7''"]
  by (simp add: agentsService_delete_def has_id_def)

lemma get_absent: "(\<forall>a \<in> set st. \<not> has_id i a) \<Longrightarrow> agentsService_get i st = Resolved None"
  by (simp add: agentsService_get_def find_None_iff)

lemma get_present:
  "(\<exists>a \<in> set st. has_id i a) \<Longrightarrow> \<exists>a \<in> set st. has_id i a \<and> agentsService_get i st = Resolved (Some a)"
proof -
  assume "\<exists>a \<in> set st. has_id i a"
  then obtain a where "find (has_id i) st = Some a"
    by (cases "find (has_id i) st") (auto simp: find_None_iff)
  moreover from this have "a \<in> set st \<and> has_id i a"
    by (auto simp: find_Some_iff)
  ultimately show ?thesis
    by (auto simp: agentsService_get_def)
qed

text \<open>
  C9. Looking an id up that the store does not hold: \<open>get\<close> of either service resolves
  (with \<open>undefined\<close>) and reports no failure, where the sibling \<open>delete\<close> of the same
  service rejects with \<open>Agent not found\<close> on the same store and id.
\<close>

theorem get_unknown_id_resolves:
  "agentsService_get ''agent-404'' [[(''id'', JStr ''agent-0''), (''status'', JStr ''ACTIVE'')]]
     = Resolved None \<and>
   simulationsService_get ''sim-404'' [[(''id'', JStr ''sim-0''), (''status'', JStr ''PENDING'')]]
     = Resolved None \<and>
   snd (agentsService_delete ''agent-404'' [[(''id'', JStr ''agent-0''), (''status'', JStr ''ACTIVE'')]])
     = Rejected ''Agent not found''"
  by (simp add: agentsService_get_def simulationsService_get_def agentsService_delete_def has_id_def)

section \<open>Properties of the workflow page\<close>

subsection \<open>One execution of a step\<close>

lemma only_step_refl: "only_step k a a"
  by (simp add: only_step_def)

lemma only_step_trans: "only_step k a b \<Longrightarrow> only_step k b c \<Longrightarrow> only_step k a c"
  by (simp add: only_step_def)

lemma exec_trace_same:
  "steps s1 = steps s \<Longrightarrow> history s1 = history s \<Longrightarrow> exec_trace k s1 s' p \<Longrightarrow> exec_trace k s s' p"
  unfolding exec_trace_def by (cases p) simp_all

lemma exec_trace_prepend:
  assumes h: "history s1 = history s @ [steps s1]"
    and o: "only_step k (steps s) (steps s1)"
    and r: "running_state (steps s1 k)"
    and t: "exec_trace k s1 s' p"
  shows "exec_trace k s s' p"
proof -
  from t obtain rs where rs: "\<forall>snap \<in> set rs. only_step k (steps s1) snap \<and> running_state (snap k)"
    and fr: "only_step k (steps s1) (steps s')"
    and c: "(case p of
              Unsettled \<Rightarrow> history s' = history s1 @ rs \<and> running_state (steps s' k)
            | Resolved r \<Rightarrow> history s' = history s1 @ rs @ [steps s'] \<and>
                status (steps s' k) = Completed \<and> result (steps s' k) = Some r \<and> error (steps s' k) = None
            | Rejected e \<Rightarrow> history s' = history s1 @ rs @ [steps s'] \<and>
                status (steps s' k) = Error \<and> result (steps s' k) = None \<and> error (steps s' k) = Some e)"
    unfolding exec_trace_def by blast
  have "\<forall>snap \<in> set (steps s1 # rs). only_step k (steps s) snap \<and> running_state (snap k)"
    using rs o r by (auto intro: only_step_trans)
  moreover have "only_step k (steps s) (steps s')"
    using o fr by (rule only_step_trans)
  moreover have "(case p of
              Unsettled \<Rightarrow> history s' = history s @ (steps s1 # rs) \<and> running_state (steps s' k)
            | Resolved r \<Rightarrow> history s' = history s @ (steps s1 # rs) @ [steps s'] \<and>
                status (steps s' k) = Completed \<and> result (steps s' k) = Some r \<and> error (steps s' k) = None
            | Rejected e \<Rightarrow> history s' = history s @ (steps s1 # rs) @ [steps s'] \<and>
                status (steps s' k) = Error \<and> result (steps s' k) = None \<and> error (steps s' k) = Some e)"
    using c h by (cases p) simp_all
  ultimately show ?thesis
    unfolding exec_trace_def by blast
qed

lemma onToken_page:
  "steps (page (onToken k t c)) = (steps (page c))(k := (steps (page c) k)\<lparr>output := output (steps (page c) k) @ t\<rparr>)"
  "history (page (onToken k t c)) = history (page c) @ [steps (page (onToken k t c))]"
  "settled (onToken k t c) = settled c"
  "fullOutput (onToken k t c) = fullOutput c @ t"
  "sent (page (onToken k t c)) = sent (page c)"
  "alerts (page (onToken k t c)) = alerts (page c)"
  "currentStep (page (onToken k t c)) = currentStep (page c)"
  "isRunning (page (onToken k t c)) = isRunning (page c)"
  "clientId (page (onToken k t c)) = clientId (page c)"
  by (simp_all add: onToken_def updateStepOutput_def setSteps_def Let_def)

lemma onComplete_page:
  "steps (page (onComplete k r c)) =
     (steps (page c))(k := (steps (page c) k)\<lparr>status := Completed, result := Some r, error := None\<rparr>)"
  "history (page (onComplete k r c)) = history (page c) @ [steps (page (onComplete k r c))]"
  "settled c = Unsettled \<Longrightarrow> settled (onComplete k r c) = Resolved r"
  "fullOutput (onComplete k r c) = fullOutput c"
  "sent (page (onComplete k r c)) = sent (page c)"
  "alerts (page (onComplete k r c)) = alerts (page c)"
  "currentStep (page (onComplete k r c)) = currentStep (page c)"
  "isRunning (page (onComplete k r c)) = isRunning (page c)"
  "clientId (page (onComplete k r c)) = clientId (page c)"
  by (simp_all add: onComplete_def settle_def updateStepStatus_def setSteps_def)

lemma onError_page:
  "steps (page (onError k e c)) =
     (steps (page c))(k := (steps (page c) k)\<lparr>status := Error, result := None, error := Some e\<rparr>)"
  "history (page (onError k e c)) = history (page c) @ [steps (page (onError k e c))]"
  "settled c = Unsettled \<Longrightarrow> settled (onError k e c) = Rejected e"
  "fullOutput (onError k e c) = fullOutput c"
  "sent (page (onError k e c)) = sent (page c)"
  "alerts (page (onError k e c)) = alerts (page c)"
  "currentStep (page (onError k e c)) = currentStep (page c)"
  "isRunning (page (onError k e c)) = isRunning (page c)"
  "clientId (page (onError k e c)) = clientId (page c)"
  by (simp_all add: onError_def settle_def updateStepStatus_def setSteps_def)

lemma exec_trace_complete:
  "settled c = Unsettled \<Longrightarrow> exec_trace k (page c) (page (onComplete k r c)) (settled (onComplete k r c))"
  by (auto simp: exec_trace_def onComplete_page only_step_def intro!: exI [of _ "[]"])

lemma exec_trace_error:
  "settled c = Unsettled \<Longrightarrow> exec_trace k (page c) (page (onError k e c)) (settled (onError k e c))"
  by (auto simp: exec_trace_def onError_page only_step_def intro!: exI [of _ "[]"])

lemma stream_trace:
  "settled c = Unsettled \<Longrightarrow> running_state (steps (page c) k) \<Longrightarrow>
   exec_trace k (page c)
     (page (streamAgentExecution cid req (onToken k) (onComplete k) (onError k) es c))
     (settled (streamAgentExecution cid req (onToken k) (onComplete k) (onError k) es c))"
proof (induction es arbitrary: c)
  case Nil
  then show ?case
    by (auto simp: exec_trace_def only_step_def intro: exI [of _ "[]"])
next
  case (Cons e es)
  show ?case
  proof (cases e)
    case OnOpen
    let ?c1 = "c\<lparr>page := (page c)\<lparr>sent := sent (page c) @ [(cid, execute_message req)]\<rparr>\<rparr>"
    have "exec_trace k (page ?c1)
      (page (streamAgentExecution cid req (onToken k) (onComplete k) (onError k) es ?c1))
      (settled (streamAgentExecution cid req (onToken k) (onComplete k) (onError k) es ?c1))"
      using Cons.prems by (intro Cons.IH) simp_all
    then show ?thesis
      using OnOpen by (auto intro: exec_trace_same [rotated 2])
  next
    case (OnMessage m)
    show ?thesis
    proof (cases m)
      case (MsgStart a)
      with OnMessage Cons show ?thesis by simp
    next
      case (MsgToken t)
      let ?c1 = "onToken k t c"
      have run1: "running_state (steps (page ?c1) k)"
        using Cons.prems by (simp add: onToken_page running_state_def)
      have "exec_trace k (page ?c1)
        (page (streamAgentExecution cid req (onToken k) (onComplete k) (onError k) es ?c1))
        (settled (streamAgentExecution cid req (onToken k) (onComplete k) (onError k) es ?c1))"
        using Cons.prems run1 by (intro Cons.IH) (simp_all add: onToken_page)
      moreover have "only_step k (steps (page c)) (steps (page ?c1))"
        by (simp add: onToken_page only_step_def)
      ultimately show ?thesis
        using OnMessage MsgToken run1
        by (auto intro: exec_trace_prepend [where ?s1.0 = "page ?c1"] simp: onToken_page(2))
    next
      case (MsgComplete r)
      with OnMessage Cons.prems show ?thesis
        by (simp add: exec_trace_complete)
    next
      case (MsgError x)
      with OnMessage Cons.prems show ?thesis
        by (simp add: exec_trace_error)
    next
      case MsgOther
      with OnMessage Cons show ?thesis by simp
    qed
  next
    case OnError
    with Cons.prems show ?thesis
      by (simp add: exec_trace_error)
  qed
qed

lemma executeStep_trace: "exec_trace k s (fst (executeStep k req es s)) (snd (executeStep k req es s))"
proof -
  let ?s0 = "updateStepStatus k Running None None (s\<lparr>currentStep := Some k\<rparr>)"
  let ?c0 = "\<lparr>page = ?s0, fullOutput = [], settled = Unsettled\<rparr>"
  have run0: "running_state (steps ?s0 k)"
    by (simp add: updateStepStatus_def setSteps_def running_state_def)
  have "exec_trace k (page ?c0)
     (page (streamAgentExecution (clientId s @ ''-'' @ step_name k) req (onToken k) (onComplete k) (onError k) es ?c0))
     (settled (streamAgentExecution (clientId s @ ''-'' @ step_name k) req (onToken k) (onComplete k) (onError k) es ?c0))"
    using run0 by (intro stream_trace) simp_all
  then have "exec_trace k ?s0 (fst (executeStep k req es s)) (snd (executeStep k req es s))"
    by (simp add: executeStep_def execution_def)
  moreover have "history ?s0 = history s @ [steps ?s0]" "only_step k (steps s) (steps ?s0)"
    by (simp_all add: updateStepStatus_def setSteps_def only_step_def)
  ultimately show ?thesis
    using run0 by (auto intro: exec_trace_prepend [where ?s1.0 = ?s0])
qed

subsection \<open>Awaiting\<close>

lemma tripleI: "(\<And>s. P s \<Longrightarrow> Q (snd (m s)) (fst (m s))) \<Longrightarrow> triple P m Q"
  by (simp add: triple_def)

lemma tripleD: "triple P m Q \<Longrightarrow> P s \<Longrightarrow> Q (snd (m s)) (fst (m s))"
  by (simp add: triple_def)

lemma await_Resolved: "snd m = Resolved r \<Longrightarrow> await m k = k r (fst m)"
  by (cases m) (simp add: await_def)

lemma await_Rejected: "snd m = Rejected e \<Longrightarrow> await m k = (fst m, Rejected e)"
  by (cases m) (simp add: await_def)

lemma await_Unsettled: "snd m = Unsettled \<Longrightarrow> await m k = (fst m, Unsettled)"
  by (cases m) (simp add: await_def)

lemma triple_await:
  assumes m: "triple P m Q"
    and k: "\<And>r. triple (Q (Resolved r)) (k r) Q'"
    and rej: "\<And>e s. Q (Rejected e) s \<Longrightarrow> Q' (Rejected e) s"
    and uns: "\<And>s. Q Unsettled s \<Longrightarrow> Q' Unsettled s"
  shows "triple P (\<lambda>s. await (m s) k) Q'"
proof (rule tripleI)
  fix s assume "P s"
  with m have q: "Q (snd (m s)) (fst (m s))" by (rule tripleD)
  show "Q' (snd (await (m s) k)) (fst (await (m s) k))"
  proof (cases "snd (m s)")
    case (Resolved r)
    with q have "Q (Resolved r) (fst (m s))" by simp
    with k have "Q' (snd (k r (fst (m s)))) (fst (k r (fst (m s))))" by (rule tripleD)
    with Resolved show ?thesis
      by (simp add: await_Resolved)
  next
    case (Rejected e)
    with q rej have "Q' (Rejected e) (fst (m s))" by simp
    with Rejected show ?thesis
      by (simp add: await_Rejected)
  next
    case Unsettled
    with q uns have "Q' Unsettled (fst (m s))" by simp
    with Unsettled show ?thesis
      by (simp add: await_Unsettled)
  qed
qed


subsection \<open>What an execution leaves alone, sends and accumulates\<close>

lemma stream_fields:
  "alerts (page (streamAgentExecution cid req (onToken k) (onComplete k) (onError k) es c)) = alerts (page c) \<and>
   currentStep (page (streamAgentExecution cid req (onToken k) (onComplete k) (onError k) es c)) = currentStep (page c) \<and>
   isRunning (page (streamAgentExecution cid req (onToken k) (onComplete k) (onError k) es c)) = isRunning (page c) \<and>
   clientId (page (streamAgentExecution cid req (onToken k) (onComplete k) (onError k) es c)) = clientId (page c)"
proof (induction es arbitrary: c)
  case Nil
  show ?case by simp
next
  case (Cons e es)
  show ?case
  proof (cases e)
    case OnOpen
    then show ?thesis using Cons.IH by simp
  next
    case (OnMessage m)
    then show ?thesis using Cons.IH
      by (cases m) (simp_all add: onToken_page onComplete_page onError_page)
  next
    case OnError
    then show ?thesis by (simp add: onError_page)
  qed
qed

lemma executeStep_fields:
  "alerts (fst (executeStep k req es s)) = alerts s"
  "currentStep (fst (executeStep k req es s)) = Some k"
  "isRunning (fst (executeStep k req es s)) = isRunning s"
  "clientId (fst (executeStep k req es s)) = clientId s"
  by (simp_all add: executeStep_def execution_def stream_fields updateStepStatus_def setSteps_def)

lemma stream_sent:
  "\<exists>n. sent (page (streamAgentExecution cid req (onToken k) (onComplete k) (onError k) es c)) =
        sent (page c) @ replicate n (cid, execute_message req)"
proof (induction es arbitrary: c)
  case Nil
  show ?case by (simp add: exI [of _ 0])
next
  case (Cons e es)
  show ?case
  proof (cases e)
    case OnOpen
    let ?c1 = "c\<lparr>page := (page c)\<lparr>sent := sent (page c) @ [(cid, execute_message req)]\<rparr>\<rparr>"
    from Cons.IH [of ?c1] obtain n where
      "sent (page (streamAgentExecution cid req (onToken k) (onComplete k) (onError k) es ?c1)) =
        sent (page ?c1) @ replicate n (cid, execute_message req)" ..
    then have "sent (page (streamAgentExecution cid req (onToken k) (onComplete k) (onError k) (e # es) c)) =
        sent (page c) @ replicate (Suc n) (cid, execute_message req)"
      using OnOpen by simp
    then show ?thesis ..
  next
    case (OnMessage m)
    show ?thesis
    proof (cases m)
      case (MsgToken t)
      from Cons.IH [of "onToken k t c"] OnMessage MsgToken show ?thesis
        by (simp add: onToken_page)
    next
      case (MsgComplete r)
      with OnMessage show ?thesis
        by (simp add: onComplete_page exI [of _ 0])
    next
      case (MsgError x)
      with OnMessage show ?thesis
        by (simp add: onError_page exI [of _ 0])
    qed (use Cons.IH OnMessage in simp_all)
  next
    case OnError
    then show ?thesis by (simp add: onError_page exI [of _ 0])
  qed
qed

lemma executeStep_sent:
  "\<exists>n. sent (fst (executeStep k req es s)) =
        sent s @ replicate n (clientId s @ ''-'' @ step_name k, execute_message req)"
proof -
  let ?c0 = "\<lparr>page = updateStepStatus k Running None None (s\<lparr>currentStep := Some k\<rparr>),
              fullOutput = [], settled = Unsettled\<rparr>"
  from stream_sent [of "clientId s @ ''-'' @ step_name k" req k es ?c0]
  show ?thesis
    by (simp add: executeStep_def execution_def updateStepStatus_def setSteps_def)
qed

lemma stream_output:
  "output (steps (page (streamAgentExecution cid req (onToken k) (onComplete k) (onError k) es c)) k) =
     output (steps (page c) k) @ concat (delivered es) \<and>
   fullOutput (streamAgentExecution cid req (onToken k) (onComplete k) (onError k) es c) =
     fullOutput c @ concat (delivered es)"
proof (induction es arbitrary: c)
  case Nil
  show ?case by simp
next
  case (Cons e es)
  show ?case
  proof (cases e)
    case OnOpen
    then show ?thesis using Cons.IH by simp
  next
    case (OnMessage m)
    then show ?thesis using Cons.IH
      by (cases m) (simp_all add: onToken_page onComplete_page onError_page)
  next
    case OnError
    then show ?thesis by (simp add: onError_page)
  qed
qed

text \<open>
  C3. One execution of a step appends the tokens its socket delivers, in delivery order,
  to what the step's output buffer held when the execution began (the buffer is never
  reset, so it is the concatenation of the tokens alone only when it was empty before);
  the local \<open>fullOutput\<close>, which starts empty in every execution, is the concatenation
  of the delivered tokens.
\<close>

theorem executeStep_accumulates:
  "output (steps (fst (executeStep k req es s)) k) = output (steps s k) @ concat (delivered es) \<and>
   fullOutput (execution k req es s) = concat (delivered es)"
  using stream_output [of "clientId s @ ''-'' @ step_name k" req k es
      "\<lparr>page = updateStepStatus k Running None None (s\<lparr>currentStep := Some k\<rparr>),
        fullOutput = [], settled = Unsettled\<rparr>"]
  by (simp add: executeStep_def execution_def updateStepStatus_def setSteps_def)

lemmas run_simps =
  runWorkflow_def workflowBody_def await_def executeStep_def execution_def
  onToken_def onComplete_def onError_def settle_def updateStepStatus_def updateStepOutput_def
  setSteps_def alert_def initialPage_def initialSteps_def demoForm_def demoBackend_def Let_def

theorem executeStep_accumulates_witness:
  "output (steps (fst (executeStep Consulting (consultingRequest demoForm) (demoBackend Consulting 0)
                        (initialPage ''client-1''))) Consulting) = ''x'' \<and>
   fullOutput (execution Consulting (consultingRequest demoForm) (demoBackend Consulting 0)
                 (initialPage ''client-1'')) = ''x''"
  using executeStep_accumulates
          [of Consulting "consultingRequest demoForm" "demoBackend Consulting 0" "initialPage ''client-1''"]
  by (simp add: demoBackend_def initialPage_def initialSteps_def)

subsection \<open>Result and error are exclusive; the guard on the form\<close>



lemma extends_same: "history s1 = history s \<Longrightarrow> extends I s1 s' \<Longrightarrow> extends I s s'"
  by (simp add: extends_def)

lemma extends_same': "history s1 = history s' \<Longrightarrow> extends I s s' \<Longrightarrow> extends I s s1"
  by (simp add: extends_def)


lemma extends_mono: "extends I s s' \<Longrightarrow> (\<And>snap. I snap \<Longrightarrow> J snap) \<Longrightarrow> extends J s s'"
  by (auto simp: extends_def)


lemma exec_trace_final:
  assumes "exec_trace k s s' p"
  shows "only_step k (steps s) (steps s')"
    and "p = Resolved r \<Longrightarrow> status (steps s' k) = Completed \<and> result (steps s' k) = Some r \<and> error (steps s' k) = None"
    and "p = Rejected e \<Longrightarrow> status (steps s' k) = Error \<and> result (steps s' k) = None \<and> error (steps s' k) = Some e"
    and "p = Unsettled \<Longrightarrow> running_state (steps s' k)"
  using assms unfolding exec_trace_def by auto





lemma runWorkflow_fields:
  "steps (fst (runWorkflow f b s)) =
     (if politicianName f = [] \<or> policyGoal f = [] \<or> city f = [] then steps s
      else steps (fst (workflowBody f b (s\<lparr>isRunning := True\<rparr>))))"
  "history (fst (runWorkflow f b s)) =
     (if politicianName f = [] \<or> policyGoal f = [] \<or> city f = [] then history s
      else history (fst (workflowBody f b (s\<lparr>isRunning := True\<rparr>))))"
  "sent (fst (runWorkflow f b s)) =
     (if politicianName f = [] \<or> policyGoal f = [] \<or> city f = [] then sent s
      else sent (fst (workflowBody f b (s\<lparr>isRunning := True\<rparr>))))"
  "currentStep (fst (runWorkflow f b s)) =
     (if politicianName f = [] \<or> policyGoal f = [] \<or> city f = [] then currentStep s
      else currentStep (fst (workflowBody f b (s\<lparr>isRunning := True\<rparr>))))"
  by (simp_all add: runWorkflow_def alert_def split: prod.splits promise.splits)

lemma executeStep_outcome:
  "snd (executeStep k req es s) = Resolved r \<Longrightarrow>
     status (steps (fst (executeStep k req es s)) k) = Completed \<and>
     result (steps (fst (executeStep k req es s)) k) = Some r \<and>
     error (steps (fst (executeStep k req es s)) k) = None"
  "snd (executeStep k req es s) = Rejected e \<Longrightarrow>
     status (steps (fst (executeStep k req es s)) k) = Error \<and>
     result (steps (fst (executeStep k req es s)) k) = None \<and>
     error (steps (fst (executeStep k req es s)) k) = Some e"
  using exec_trace_final [OF executeStep_trace [of k s req es]] by simp_all



text \<open>
  C7. \<open>runWorkflow\<close> with an empty politician name, policy goal or city returns at once:
  it raises the alert and nothing else. \<open>steps\<close> keeps its value (a pending step stays
  pending), \<open>setSteps\<close> is never called (no step enters \<open>running\<close>), no request is sent,
  and \<open>currentStep\<close> and \<open>isRunning\<close> are untouched.
\<close>

theorem runWorkflow_rejects_missing_field:
  assumes "politicianName f = [] \<or> policyGoal f = [] \<or> city f = []"
  shows "snd (runWorkflow f b s) = Resolved () \<and>
         steps (fst (runWorkflow f b s)) = steps s \<and>
         history (fst (runWorkflow f b s)) = history s \<and>
         sent (fst (runWorkflow f b s)) = sent s \<and>
         currentStep (fst (runWorkflow f b s)) = currentStep s \<and>
         isRunning (fst (runWorkflow f b s)) = isRunning s \<and>
         alerts (fst (runWorkflow f b s)) = alerts s @ [''Please fill in all required fields'']"
  using assms by (simp add: runWorkflow_def alert_def)

theorem runWorkflow_rejects_missing_field_witness:
  "city (demoForm\<lparr>city := []\<rparr>) = [] \<and>
   steps (fst (runWorkflow (demoForm\<lparr>city := []\<rparr>) demoBackend (initialPage ''client-1''))) = initialSteps \<and>
   history (fst (runWorkflow (demoForm\<lparr>city := []\<rparr>) demoBackend (initialPage ''client-1''))) = [] \<and>
   sent (fst (runWorkflow (demoForm\<lparr>city := []\<rparr>) demoBackend (initialPage ''client-1''))) = []"
  using runWorkflow_rejects_missing_field
          [of "demoForm\<lparr>city := []\<rparr>" demoBackend "initialPage ''client-1''"]
  by (simp add: initialPage_def)

text \<open>
  The claim C3 as stated fails where a step is executed again: the second execution of
  the simulation step delivers \<open>b\<close> alone, and the step's buffer holds \<open>ab\<close> after it.
\<close>

theorem executeStep_buffer_counterexample:
  "output (steps (fst (executeStep Simulation (simulationRequest demoForm ''housing'')
                        (demoBackend Simulation 1)
                        (fst (executeStep Simulation (simulationRequest demoForm ''traffic'')
                                (demoBackend Simulation 0) (initialPage ''client-1'')))))
                 Simulation)
     \<noteq> concat (delivered (demoBackend Simulation 1)) \<and>
   output (steps (fst (runWorkflow demoForm demoBackend (initialPage ''client-1''))) Simulation) = ''ab''"
  by (simp add: run_simps)

subsection \<open>The run stops at the first failure\<close>


lemma workflowBody_rule:
  assumes c: "triple P (executeStep Consulting (consultingRequest f) (b Consulting 0)) Q1"
    and l: "\<And>r. triple (Q1 (Resolved r)) (simulationLoop f b 0 (simulationPerspective f)) Q2"
    and d: "\<And>r. triple (Q2 (Resolved r)) (executeStep Debate (debateRequest f) (b Debate 0)) Q3"
    and a: "\<And>r. triple (Q3 (Resolved r)) (executeStep Aggregator (aggregatorRequest f) (b Aggregator 0)) Q4"
    and fin: "\<And>r s. Q4 (Resolved r) s \<Longrightarrow> Q (Resolved ()) (s\<lparr>currentStep := None\<rparr>)"
    and rej: "\<And>e s. Q1 (Rejected e) s \<Longrightarrow> Q (Rejected e) s"
             "\<And>e s. Q2 (Rejected e) s \<Longrightarrow> Q (Rejected e) s"
             "\<And>e s. Q3 (Rejected e) s \<Longrightarrow> Q (Rejected e) s"
             "\<And>e s. Q4 (Rejected e) s \<Longrightarrow> Q (Rejected e) s"
    and uns: "\<And>s. Q1 Unsettled s \<Longrightarrow> Q Unsettled s"
             "\<And>s. Q2 Unsettled s \<Longrightarrow> Q Unsettled s"
             "\<And>s. Q3 Unsettled s \<Longrightarrow> Q Unsettled s"
             "\<And>s. Q4 Unsettled s \<Longrightarrow> Q Unsettled s"
  shows "triple P (workflowBody f b) Q"
proof -
  let ?k4 = "\<lambda>(aggregatorResult :: json) s4. (s4\<lparr>currentStep := None\<rparr>, Resolved ())"
  let ?k3 = "\<lambda>(debateResult :: json) s3.
     await (executeStep Aggregator (aggregatorRequest f) (b Aggregator 0) s3) ?k4"
  let ?k2 = "\<lambda>(u :: unit) s2. await (executeStep Debate (debateRequest f) (b Debate 0) s2) ?k3"
  let ?k1 = "\<lambda>(consultingResult :: json) s1.
     await (simulationLoop f b 0 (simulationPerspective f) s1) ?k2"
  have t4: "triple (Q4 (Resolved r)) (?k4 r) Q" for r
    using fin by (simp add: triple_def)
  have t3: "triple (Q3 (Resolved r)) (?k3 r) Q" for r
    by (rule triple_await [OF a]) (rule t4, fact rej(4), fact uns(4))
  have t2: "triple (Q2 (Resolved r)) (?k2 r) Q" for r
    by (rule triple_await [OF d]) (rule t3, fact rej(3), fact uns(3))
  have t1: "triple (Q1 (Resolved r)) (?k1 r) Q" for r
    by (rule triple_await [OF l]) (rule t2, fact rej(2), fact uns(2))
  have "triple P (\<lambda>s. await (executeStep Consulting (consultingRequest f) (b Consulting 0) s) ?k1) Q"
    by (rule triple_await [OF c]) (rule t1, fact rej(1), fact uns(1))
  then show ?thesis
    by (simp add: triple_def workflowBody_def)
qed










subsection \<open>Order and monotonicity\<close>

lemma workflowSteps_all: "k \<in> set workflowSteps"
  by (cases k) (simp_all add: workflowSteps_def)











lemma status_le_Pending: "status_le a Pending \<Longrightarrow> a = Pending"
  by (auto simp: status_le_def)















subsection \<open>The requests of a run\<close>

lemma executeStep_sent_inv:
  assumes "(clientId s0 @ ''-'' @ step_name k, execute_message req) \<in> set (requestPlan f (clientId s0))"
  shows "triple (sent_inv f s0) (executeStep k req es) (\<lambda>p. sent_inv f s0)"
proof (rule tripleI)
  fix s assume inv: "sent_inv f s0 s"
  then obtain new where new: "sent s = sent s0 @ new" "set new \<subseteq> set (requestPlan f (clientId s0))"
    and cid: "clientId s = clientId s0"
    by (auto simp: sent_inv_def)
  from executeStep_sent [of k req es s] obtain n where
    n: "sent (fst (executeStep k req es s)) =
          sent s @ replicate n (clientId s @ ''-'' @ step_name k, execute_message req)" ..
  have "sent (fst (executeStep k req es s)) =
      sent s0 @ (new @ replicate n (clientId s0 @ ''-'' @ step_name k, execute_message req))"
    using n new cid by simp
  moreover have "set (new @ replicate n (clientId s0 @ ''-'' @ step_name k, execute_message req))
      \<subseteq> set (requestPlan f (clientId s0))"
    using new assms by (auto simp: set_replicate_conv_if)
  ultimately show "sent_inv f s0 (fst (executeStep k req es s))"
    using cid unfolding sent_inv_def executeStep_fields by blast
qed

lemma simulationLoop_sent_inv:
  "set ps \<subseteq> set (simulationPerspective f) \<Longrightarrow>
   triple (sent_inv f s0) (simulationLoop f b n ps) (\<lambda>p. sent_inv f s0)"
proof (induction ps arbitrary: n)
  case Nil
  show ?case by (simp add: triple_def)
next
  case (Cons p ps)
  have mem: "(clientId s0 @ ''-'' @ step_name Simulation, execute_message (simulationRequest f p))
      \<in> set (requestPlan f (clientId s0))"
    using Cons.prems by (auto simp: requestPlan_def)
  have "triple (sent_inv f s0)
      (\<lambda>s. await (executeStep Simulation (simulationRequest f p) (b Simulation n) s)
              (\<lambda>simulationResult. simulationLoop f b (Suc n) ps))
      (\<lambda>p. sent_inv f s0)"
    using Cons.prems
    by (intro triple_await [OF executeStep_sent_inv [OF mem]] Cons.IH) simp_all
  then show ?case by (simp add: triple_def)
qed

lemma workflowBody_sent_inv: "triple (sent_inv f s0) (workflowBody f b) (\<lambda>p. sent_inv f s0)"
proof (rule workflowBody_rule [where ?Q1.0 = "\<lambda>p. sent_inv f s0" and ?Q2.0 = "\<lambda>p. sent_inv f s0"
      and ?Q3.0 = "\<lambda>p. sent_inv f s0" and ?Q4.0 = "\<lambda>p. sent_inv f s0"])
  show "triple (sent_inv f s0) (executeStep Consulting (consultingRequest f) (b Consulting 0))
     (\<lambda>p. sent_inv f s0)"
    by (rule executeStep_sent_inv) (simp add: requestPlan_def)
  show "triple (sent_inv f s0) (simulationLoop f b 0 (simulationPerspective f)) (\<lambda>p. sent_inv f s0)"
    by (rule simulationLoop_sent_inv) simp
  show "triple (sent_inv f s0) (executeStep Debate (debateRequest f) (b Debate 0)) (\<lambda>p. sent_inv f s0)"
    by (rule executeStep_sent_inv) (simp add: requestPlan_def)
  show "triple (sent_inv f s0) (executeStep Aggregator (aggregatorRequest f) (b Aggregator 0))
     (\<lambda>p. sent_inv f s0)"
    by (rule executeStep_sent_inv) (simp add: requestPlan_def)
qed (simp_all add: sent_inv_def)

text \<open>
  C8. Every request a run of \<open>runWorkflow\<close> sends is one of \<open>requestPlan\<close>, which is
  computed from the form fields and the client id alone: whatever the backend answers,
  the request of a step is the same, and no result of an earlier step enters it.
\<close>

theorem runWorkflow_requests_from_form:
  "\<exists>new. sent (fst (runWorkflow f b s)) = sent s @ new \<and>
         set new \<subseteq> set (requestPlan f (clientId s))"
proof (cases "politicianName f = [] \<or> policyGoal f = [] \<or> city f = []")
  case True
  then show ?thesis
    by (simp add: runWorkflow_fields)
next
  case False
  let ?s1 = "s\<lparr>isRunning := True\<rparr>"
  have "sent_inv f ?s1 ?s1"
    by (simp add: sent_inv_def)
  with workflowBody_sent_inv have "sent_inv f ?s1 (fst (workflowBody f b ?s1))"
    by (rule tripleD)
  with False show ?thesis
    by (simp add: sent_inv_def runWorkflow_fields)
qed

theorem runWorkflow_requests_from_form_witness:
  "set (sent (fst (runWorkflow demoForm demoBackend (initialPage ''client-1''))))
     \<subseteq> set (requestPlan demoForm ''client-1'')"
  using runWorkflow_requests_from_form [of demoForm demoBackend "initialPage ''client-1''"]
  by (auto simp: initialPage_def)

text \<open>
  The claim C8 as stated fails: in the run below the simulation step resolves with the
  result \<open>second\<close> and the debate step with \<open>done\<close>, and neither the debate request nor
  the aggregator request that were sent holds the result of the step before it.
\<close>

theorem runWorkflow_request_counterexample:
  "result (steps (fst (runWorkflow demoForm demoBackend (initialPage ''client-1''))) Simulation) =
     Some (JStr ''second'') \<and>
   result (steps (fst (runWorkflow demoForm demoBackend (initialPage ''client-1''))) Debate) =
     Some (JStr ''done'') \<and>
   map fst (sent (fst (runWorkflow demoForm demoBackend (initialPage ''client-1'')))) =
     [''client-1-consulting'', ''client-1-simulation'', ''client-1-simulation'',
      ''client-1-debate'', ''client-1-aggregator''] \<and>
   \<not> contains (snd (sent (fst (runWorkflow demoForm demoBackend (initialPage ''client-1''))) ! 3))
         (JStr ''second'') \<and>
   \<not> contains (snd (sent (fst (runWorkflow demoForm demoBackend (initialPage ''client-1''))) ! 4))
         (JStr ''done'')"
  by (simp add: run_simps contains_def execute_message_def debateRequest_def aggregatorRequest_def
        consultingRequest_def simulationRequest_def stepConfig_def)

section \<open>Properties of the context aggregator\<close>

lemma aggregator_record_bound:
  "\<forall>kind. length (agg kind) \<le> aggregator_capacity \<Longrightarrow>
   length (aggregator_record k e agg kind) \<le> aggregator_capacity"
proof -
  assume "\<forall>kind. length (agg kind) \<le> aggregator_capacity"
  then have "length (agg k) \<le> aggregator_capacity" "length (agg kind) \<le> aggregator_capacity"
    by simp_all
  then show ?thesis
    by (simp add: aggregator_record_def aggregator_capacity_def)
qed

lemma aggregator_record_all_bound:
  "\<forall>kind. length (agg kind) \<le> aggregator_capacity \<Longrightarrow>
   length (aggregator_record_all rs agg kind) \<le> aggregator_capacity"
proof (induction rs arbitrary: agg)
  case Nil
  then show ?case by simp
next
  case (Cons r rs)
  obtain k e where r: "r = (k, e)" by (cases r)
  have "\<forall>kind. length (aggregator_record k e agg kind) \<le> aggregator_capacity"
    using Cons.prems by (simp add: aggregator_record_bound)
  from Cons.IH [OF this] r show ?case by simp
qed

lemma setAgentFullOutputs_replaces:
  "setAgentFullOutputs key out2 (setAgentFullOutputs key out1 prev) = setAgentFullOutputs key out2 prev"
  by (simp add: setAgentFullOutputs_def)

text \<open>
  C6. The aggregator never holds more than 10 entries for a kind: starting empty, after
  any sequence of recordings every kind has at most 10 entries, and one more recording
  keeps the bound. Recording into a kind that holds 10 entries evicts exactly the oldest
  one and appends the new entry at the end (insertion order); recording into a kind
  below capacity appends and evicts nothing; the other kinds are untouched.
\<close>

theorem aggregator_bounded_fifo:
  "length (aggregator_record_all rs aggregator_empty kind) \<le> 10 \<and>
   ((\<forall>k. length (agg k) \<le> 10) \<longrightarrow> (\<forall>k. length (aggregator_record kind e agg k) \<le> 10)) \<and>
   (length (agg kind) = 10 \<longrightarrow> aggregator_record kind e agg kind = tl (agg kind) @ [e]) \<and>
   (length (agg kind) < 10 \<longrightarrow> aggregator_record kind e agg kind = agg kind @ [e]) \<and>
   (\<forall>k. k \<noteq> kind \<longrightarrow> aggregator_record kind e agg k = agg k)"
proof -
  have "length (aggregator_record_all rs aggregator_empty kind) \<le> aggregator_capacity"
    by (rule aggregator_record_all_bound) (simp add: aggregator_empty_def)
  moreover have "(\<forall>k. length (agg k) \<le> 10) \<longrightarrow> (\<forall>k. length (aggregator_record kind e agg k) \<le> 10)"
    using aggregator_record_bound [of agg kind e] by (simp add: aggregator_capacity_def)
  ultimately show ?thesis
    by (simp add: aggregator_record_def aggregator_capacity_def)
qed

theorem aggregator_bounded_fifo_witness:
  "aggregator_record ''simulation'' (11::nat)
     (aggregator_record_all (map (\<lambda>n. (''simulation'', n)) [1, 2, 3, 4, 5, 6, 7, 8, 9, 10])
        aggregator_empty) ''simulation'' =
   [2, 3, 4, 5, 6, 7, 8, 9, 10, 11] \<and>
   aggregator_record ''debate'' (1::nat) aggregator_empty ''debate'' = [1]"
proof -
  let ?agg = "aggregator_record_all (map (\<lambda>n. (''simulation'', n)) [1, 2, 3, 4, 5, 6, 7, 8, 9, 10::nat])
        aggregator_empty"
  have full: "?agg ''simulation'' = [1, 2, 3, 4, 5, 6, 7, 8, 9, 10]"
    by (simp add: aggregator_record_def aggregator_empty_def aggregator_capacity_def)
  have below: "length ((aggregator_empty :: nat aggregator) ''debate'') < 10"
    by (simp add: aggregator_empty_def)
  from aggregator_bounded_fifo [of "[]" "''simulation''" ?agg "11"]
       aggregator_bounded_fifo [of "[]" "''debate''" aggregator_empty "1::nat"]
       full below
  show ?thesis
    by (simp add: aggregator_empty_def)
qed

end
